theory Spec2Isabelle
  imports Main "HOL-Library.Word" "HOL-Library.Multiset"
begin

section \<open>Keys\<close>

text \<open>
  The table of \<^verbatim>\<open>hash_table.hpp\<close> (the variant with the \<^verbatim>\<open>Key\<close> concept) is
  instantiated in its test program as \<^verbatim>\<open>HashTable<IntKey<int>, int, 10>\<close>. The model
  fixes the key type to \<^verbatim>\<open>IntKey<int>\<close>, a struct holding one 32-bit signed integer. The
  value type is any type with a zero, standing for an arithmetic type such as the
  \<^verbatim>\<open>int\<close> of the test program: \<^verbatim>\<open>V{}\<close>, the value-initialised value, is \<open>0\<close>, and
  moving a value copies it.

  \<^verbatim>\<open>hash()\<close> is \<^verbatim>\<open>static_cast<size_t>(value)\<close>: the sign extension of the integer to
  64 bits, read unsigned. \<^verbatim>\<open>operator==\<close> compares the integers, so it is HOL equality.
  Moving an \<^verbatim>\<open>IntKey\<close> (\<^verbatim>\<open>std::move\<close>) copies it and leaves the source unchanged.
\<close>

datatype IntKey = IntKey (kvalue: "32 word")

definition hash :: "IntKey \<Rightarrow> nat" where
  "hash k = unat (scast (kvalue k) :: 64 word)"

definition isNull :: "IntKey \<Rightarrow> bool" where
  "isNull k \<longleftrightarrow> kvalue k = 0"

section \<open>Chain nodes\<close>

text \<open>
  \<^verbatim>\<open>HashNode\<close> holds a key, a value and the exclusively owned successor
  (\<^verbatim>\<open>std::unique_ptr<HashNode>\<close>, here an \<open>option\<close>). The default node has the
  value-initialised key \<^verbatim>\<open>IntKey{0}\<close>, the value \<^verbatim>\<open>V{}\<close> and no successor.
\<close>

datatype 'v HashNode = HashNode (key: IntKey) (val: 'v) (next_node: "'v HashNode option")

definition default_node :: "'v::zero HashNode" where
  "default_node = HashNode (IntKey 0) 0 None"

definition isOccupied :: "'v HashNode \<Rightarrow> bool" where
  "isOccupied n \<longleftrightarrow> \<not> isNull (key n)"

text \<open>
  \<^verbatim>\<open>while (node->next) node = node->next.get(); node->next = make_unique(...)\<close>:
  the new node is linked behind the last node of the chain.
\<close>

fun append_tail :: "'v HashNode \<Rightarrow> IntKey \<Rightarrow> 'v \<Rightarrow> 'v HashNode" where
  "append_tail (HashNode k v None) k' v' = HashNode k v (Some (HashNode k' v' None))"
| "append_tail (HashNode k v (Some n)) k' v' = HashNode k v (Some (append_tail n k' v'))"

text \<open>The walk of \<^verbatim>\<open>get\<close>: the first node that is occupied and holds the key.\<close>

fun get_chain :: "'v HashNode option \<Rightarrow> IntKey \<Rightarrow> 'v option" where
  "get_chain None k = None"
| "get_chain (Some (HashNode k' v nx)) k =
     (if isOccupied (HashNode k' v nx) \<and> k' = k then Some v else get_chain nx k)"

text \<open>
  The walk of \<^verbatim>\<open>remove\<close> behind the head, with the trailing pointer \<^verbatim>\<open>prev\<close>: the
  first node whose key equals the key is unlinked (\<^verbatim>\<open>prev->next = std::move(node->next)\<close>).
  The keys are compared without a test of \<^verbatim>\<open>isOccupied\<close>.
\<close>

fun unlink :: "'v HashNode option \<Rightarrow> IntKey \<Rightarrow> 'v HashNode option" where
  "unlink None k = None"
| "unlink (Some (HashNode k' v nx)) k =
     (if k' = k then nx else Some (HashNode k' v (unlink nx k)))"

text \<open>
  \<^verbatim>\<open>remove\<close> on the slot's head node. When the head holds the key and has a successor,
  \<^verbatim>\<open>*node = std::move(*node->next)\<close> gives the head the successor's key, value and
  successor, and the following \<^verbatim>\<open>node->next.reset()\<close> destroys what the head then
  points to. With no successor the head is reset to the default node.
\<close>

fun remove_chain :: "'v::zero HashNode \<Rightarrow> IntKey \<Rightarrow> 'v HashNode" where
  "remove_chain (HashNode k' v nx) k =
     (if k' = k then
        (case nx of
           Some (HashNode k2 v2 nx2) \<Rightarrow> HashNode k2 v2 None
         | None \<Rightarrow> default_node)
      else HashNode k' v (unlink nx k))"

text \<open>
  The walk of \<^verbatim>\<open>grow\<close> over a chain of the base array:
  \<^verbatim>\<open>while (node && node->isOccupied())\<close> collects the pair of every node up to the first
  node that is not occupied.
\<close>

fun collect_chain :: "'v HashNode option \<Rightarrow> (IntKey \<times> 'v) list" where
  "collect_chain None = []"
| "collect_chain (Some (HashNode k v nx)) =
     (if isOccupied (HashNode k v nx) then (k, v) # collect_chain nx else [])"

section \<open>The table\<close>

text \<open>
  \<^verbatim>\<open>base\<close> is a \<^verbatim>\<open>std::array\<close> of \<^verbatim>\<open>BaseSize\<close> nodes, so \<^verbatim>\<open>BaseSize\<close> is the
  length of \<open>base\<close>; \<^verbatim>\<open>heap\<close> is the overflow array with its \<^verbatim>\<open>length\<close>. The counters
  are \<^verbatim>\<open>size_t\<close>; they are natural numbers here, as no table can hold \<open>2 ^ 64\<close> nodes.
\<close>

record 'v HashTable =
  base :: "'v HashNode list"
  heap :: "'v HashNode list"
  entryCount :: nat

definition BaseSize :: "'v HashTable \<Rightarrow> nat" where
  "BaseSize t = length (base t)"

definition totalSize :: "'v HashTable \<Rightarrow> nat" where
  "totalSize t = BaseSize t + length (heap t)"

text \<open>The default-constructed table with the template argument \<^verbatim>\<open>BaseSize\<close>.\<close>

definition empty_table :: "nat \<Rightarrow> 'v::zero HashTable" where
  "empty_table B = \<lparr>base = replicate B default_node, heap = [], entryCount = 0\<rparr>"

text \<open>
  \<^verbatim>\<open>(index < BaseSize) ? &base[index] : &heap[index - BaseSize]\<close>. The index is a
  remainder modulo \<open>totalSize\<close>, so it is in range whenever \<open>totalSize\<close> is not zero.
\<close>

definition slot :: "'v HashTable \<Rightarrow> nat \<Rightarrow> 'v HashNode" where
  "slot t i = (if i < BaseSize t then base t ! i else heap t ! (i - BaseSize t))"

definition set_slot :: "'v HashTable \<Rightarrow> nat \<Rightarrow> 'v HashNode \<Rightarrow> 'v HashTable" where
  "set_slot t i n =
     (if i < BaseSize t then t\<lparr>base := (base t)[i := n]\<rparr>
      else t\<lparr>heap := (heap t)[i - BaseSize t := n]\<rparr>)"

definition get :: "'v HashTable \<Rightarrow> IntKey \<Rightarrow> 'v option" where
  "get t k = get_chain (Some (slot t (hash k mod totalSize t))) k"

text \<open>
  \<^verbatim>\<open>remove\<close> returns nothing. It decrements the counter before it looks for the key.
\<close>

definition remove :: "'v::zero HashTable \<Rightarrow> IntKey \<Rightarrow> 'v HashTable" where
  "remove t k =
     (if entryCount t = 0 then t
      else
        let t1 = t\<lparr>entryCount := entryCount t - 1\<rparr>;
            i = hash k mod totalSize t1
        in set_slot t1 i (remove_chain (slot t1 i) k))"

text \<open>
  The placement part of \<^verbatim>\<open>insert\<close> (from \<^verbatim>\<open>size_t totalSize = ...\<close> on): a head that
  is not occupied is overwritten, otherwise the pair is appended to the chain.
\<close>

definition place :: "'v HashTable \<Rightarrow> IntKey \<Rightarrow> 'v \<Rightarrow> 'v HashTable" where
  "place t k v =
     (let i = hash k mod totalSize t in
      if \<not> isOccupied (slot t i) then set_slot t i (HashNode k v None)
      else set_slot t i (append_tail (slot t i) k v))"

text \<open>
  The load-factor test \<^verbatim>\<open>entryCount > (BaseSize + heap.length) * 0.75\<close> is made in
  \<^verbatim>\<open>double\<close>; \<open>0.75\<close> is a dyadic fraction, so for every size a table can have the test
  is exactly \<open>4 * entryCount > 3 * (BaseSize + heap.length)\<close>.
\<close>

definition over_load :: "'v HashTable \<Rightarrow> bool" where
  "over_load t \<longleftrightarrow> 4 * entryCount t > 3 * totalSize t"

text \<open>The first part of \<^verbatim>\<open>grow\<close>: the pairs moved into \<^verbatim>\<open>allEntries\<close>.\<close>

definition allEntries :: "'v HashTable \<Rightarrow> (IntKey \<times> 'v) list" where
  "allEntries t =
     concat (map (\<lambda>n. collect_chain (Some n)) (base t)) @
     concat (map (\<lambda>n. if isOccupied n then [(key n, val n)] else []) (heap t))"

definition newheapLen :: "'v HashTable \<Rightarrow> nat" where
  "newheapLen t = (if length (heap t) = 0 then 4 else length (heap t) * 2)"

text \<open>
  The second part of \<^verbatim>\<open>grow\<close>: \<^verbatim>\<open>heap = HeapArray(newheapLen); entryCount = 0;\<close>.
  The model gives the table the \<open>newheapLen\<close> value-initialised nodes of the new array
  as its overflow array, which is what the statement is written for. It is kinder than
  the program: \<^verbatim>\<open>HeapArray\<close> declares a destructor and no assignment, so the
  assignment copies pointer and length and the destructor of the temporary then frees the
  array the table points to; what the program reads from its overflow slots after a
  growth is not defined by the source. Lengths and the counter do not depend on that.
  The base array is not assigned to.
\<close>

definition grow_reset :: "'v::zero HashTable \<Rightarrow> 'v HashTable" where
  "grow_reset t = t\<lparr>heap := replicate (newheapLen t) default_node, entryCount := 0\<rparr>"

text \<open>
  \<^verbatim>\<open>insert\<close> calls \<^verbatim>\<open>grow\<close>, and \<^verbatim>\<open>grow\<close> calls \<^verbatim>\<open>insert\<close> for every collected pair.
  This recursion does not end on every table, so both functions take fuel:
  the number of activations of \<^verbatim>\<open>grow\<close> that may be nested inside the call.
  \<open>None\<close> says that the fuel did not suffice: \<open>insert_fuel 0\<close> is \<open>None\<close> exactly when
  the call has to grow, and \<open>grow_fuel 0\<close> is \<open>None\<close> exactly when one of its
  re-insertions has to grow again.
\<close>

fun insert_fuel :: "nat \<Rightarrow> 'v::zero HashTable \<Rightarrow> IntKey \<Rightarrow> 'v \<Rightarrow> 'v HashTable option"
  and grow_fuel :: "nat \<Rightarrow> 'v::zero HashTable \<Rightarrow> 'v HashTable option"
  and reinsert :: "nat \<Rightarrow> (IntKey \<times> 'v) list \<Rightarrow> 'v::zero HashTable \<Rightarrow> 'v HashTable option"
where
  "insert_fuel n t k v =
     (let t1 = t\<lparr>entryCount := entryCount t + 1\<rparr> in
      if over_load t1 then
        (case n of
           0 \<Rightarrow> None
         | Suc m \<Rightarrow> (case grow_fuel m t1 of None \<Rightarrow> None | Some t2 \<Rightarrow> Some (place t2 k v)))
      else Some (place t1 k v))"
| "grow_fuel m t = reinsert m (allEntries t) (grow_reset t)"
| "reinsert m [] t = Some t"
| "reinsert m ((k, v) # es) t =
     (case insert_fuel m t k v of None \<Rightarrow> None | Some t' \<Rightarrow> reinsert m es t')"

text \<open>A sequence of \<^verbatim>\<open>insert\<close> calls, each with the same fuel.\<close>

fun inserts :: "nat \<Rightarrow> (IntKey \<times> 'v) list \<Rightarrow> 'v::zero HashTable \<Rightarrow> 'v HashTable option" where
  "inserts n [] t = Some t"
| "inserts n ((k, v) # es) t =
     (case insert_fuel n t k v of None \<Rightarrow> None | Some t' \<Rightarrow> inserts n es t')"

section \<open>What a table holds\<close>

text \<open>
  Every pair of a chain, node by node, and the pairs of the whole table whose key is not
  the sentinel: the entries stored in the table.
\<close>

fun chain_nodes :: "'v HashNode option \<Rightarrow> (IntKey \<times> 'v) list" where
  "chain_nodes None = []"
| "chain_nodes (Some (HashNode k v nx)) = (k, v) # chain_nodes nx"

definition stored_entries :: "'v HashTable \<Rightarrow> (IntKey \<times> 'v) list" where
  "stored_entries t =
     filter (\<lambda>(k, v). \<not> isNull k) (concat (map (\<lambda>n. chain_nodes (Some n)) (base t @ heap t)))"

text \<open>
  Two notions for the growths that never end: every occupied head of the base array
  starts a chain of keys that are not the sentinel and hash below \<^verbatim>\<open>BaseSize\<close> (such
  a key has its slot in the base array whatever the total size is), and the number of
  pairs that \<^verbatim>\<open>grow\<close> collects from the base array.
\<close>

definition small_chains :: "'v HashTable \<Rightarrow> bool" where
  "small_chains t \<longleftrightarrow>
     list_all (\<lambda>n. \<not> isOccupied n \<or>
        list_all (\<lambda>e. \<not> isNull (fst e) \<and> hash (fst e) < BaseSize t) (chain_nodes (Some n)))
       (base t)"

definition base_count :: "'v HashTable \<Rightarrow> nat" where
  "base_count t = length (concat (map (\<lambda>n. collect_chain (Some n)) (base t)))"

text \<open>A node without its successors.\<close>

definition cut_chain :: "'v HashNode \<Rightarrow> 'v HashNode" where
  "cut_chain n = HashNode (key n) (val n) None"

section \<open>Copying\<close>

text \<open>
  The copy assignment of \<^verbatim>\<open>HashNode\<close> copies key and value and rebuilds the chain node
  by node in a loop. The copy constructor of \<^verbatim>\<open>HashTable\<close> initialises
  \<^verbatim>\<open>entryCount\<close> from the other table, \<^verbatim>\<open>base\<close> and \<^verbatim>\<open>heap\<close> from their default
  member initialisers, assigns \<^verbatim>\<open>base = other.base\<close> and then tests
  \<^verbatim>\<open>heap.length > 0\<close> on its own, new \<^verbatim>\<open>heap\<close>.
\<close>

fun copy_chain :: "'v HashNode option \<Rightarrow> 'v HashNode option" where
  "copy_chain None = None"
| "copy_chain (Some (HashNode k v nx)) = Some (HashNode k v (copy_chain nx))"

definition copy_node :: "'v HashNode \<Rightarrow> 'v HashNode" where
  "copy_node n = HashNode (key n) (val n) (copy_chain (next_node n))"

definition copy_table :: "'v::zero HashTable \<Rightarrow> 'v HashTable" where
  "copy_table other =
     (let this = \<lparr>base = replicate (BaseSize other) default_node, heap = [],
                   entryCount = entryCount other\<rparr>;
          this = this\<lparr>base := map copy_node (base other)\<rparr>
      in if length (heap this) > 0
         then this\<lparr>heap := map (\<lambda>i. copy_node (heap other ! i)) [0..<length (heap this)]\<rparr>
         else this)"

section \<open>Construction from a fixed list\<close>

text \<open>
  \<^verbatim>\<open>make_table\<close> places every pair at \<^verbatim>\<open>key.hash() % BaseSize\<close> of the base array
  and throws \<^verbatim>\<open>std::logic_error\<close> when the node there is occupied.
\<close>

datatype error = logic_error string | runtime_error string

fun make_table_loop :: "(IntKey \<times> 'v) list \<Rightarrow> 'v HashTable \<Rightarrow> error + 'v HashTable" where
  "make_table_loop [] table = Inr table"
| "make_table_loop ((k, v) # entries) table =
     (let index = hash k mod BaseSize table in
      if isOccupied (base table ! index)
      then Inl (logic_error ''Compile-time collision detected!'')
      else make_table_loop entries (table\<lparr>base := (base table)[index := HashNode k v None]\<rparr>))"

definition make_table :: "nat \<Rightarrow> (IntKey \<times> 'v) list \<Rightarrow> error + 'v::zero HashTable" where
  "make_table B entries = make_table_loop entries (empty_table B)"

section \<open>The variant with optional slots\<close>

text \<open>
  The older \<^verbatim>\<open>hash_table.hpp\<close> keeps a \<^verbatim>\<open>std::optional<HashNode>\<close> in every base slot
  and a \<^verbatim>\<open>std::unique_ptr<HashNode>\<close> in every overflow slot, so a slot is empty when it
  holds nothing, whatever the key. Keys are hashed by \<^verbatim>\<open>std::hash<K>\<close>, a parameter
  \<open>h\<close> here; \<^verbatim>\<open>heap_size\<close> is the length of \<open>heap_array\<close>. Its names carry a
  \<open>2\<close> where they meet the names above.
\<close>

datatype ('k, 'v) HashNode2 =
  HashNode2 (key2: 'k) (value2: 'v) (next2: "('k, 'v) HashNode2 option")

record ('k, 'v) HashTable2 =
  base_array :: "('k, 'v) HashNode2 option list"
  heap_array :: "('k, 'v) HashNode2 option list"
  num_entries :: nat

text \<open>The walk of both branches of \<^verbatim>\<open>get\<close>, and \<^verbatim>\<open>get\<close>.\<close>

fun get_walk2 :: "('k, 'v) HashNode2 option \<Rightarrow> 'k \<Rightarrow> 'v option" where
  "get_walk2 None k = None"
| "get_walk2 (Some (HashNode2 k' v nx)) k = (if k' = k then Some v else get_walk2 nx k)"

definition get2 :: "('k \<Rightarrow> nat) \<Rightarrow> ('k, 'v) HashTable2 \<Rightarrow> 'k \<Rightarrow> 'v option" where
  "get2 h t k =
     (let index = h k mod (length (base_array t) + length (heap_array t)) in
      if index < length (base_array t) then get_walk2 (base_array t ! index) k
      else get_walk2 (heap_array t ! (index - length (base_array t))) k)"

text \<open>
  \<^verbatim>\<open>from_nice_pairs\<close> places every pair in its base slot, counts it, and throws
  \<^verbatim>\<open>std::runtime_error\<close> when the slot holds a node.
\<close>

fun from_nice_pairs_loop ::
  "('k \<Rightarrow> nat) \<Rightarrow> ('k \<times> 'v) list \<Rightarrow> ('k, 'v) HashTable2 \<Rightarrow> error + ('k, 'v) HashTable2" where
  "from_nice_pairs_loop h [] table = Inr table"
| "from_nice_pairs_loop h ((k, v) # pairs) table =
     (let index = h k mod length (base_array table) in
      if base_array table ! index = None
      then from_nice_pairs_loop h pairs
             (table\<lparr>base_array := (base_array table)[index := Some (HashNode2 k v None)],
                    num_entries := num_entries table + 1\<rparr>)
      else Inl (runtime_error ''Collision detected during constexpr construction.''))"

definition from_nice_pairs ::
  "('k \<Rightarrow> nat) \<Rightarrow> nat \<Rightarrow> ('k \<times> 'v) list \<Rightarrow> error + ('k, 'v) HashTable2" where
  "from_nice_pairs h base_size pairs =
     from_nice_pairs_loop h pairs
       \<lparr>base_array = replicate base_size None, heap_array = [], num_entries = 0\<rparr>"

text \<open>
  \<^verbatim>\<open>grow\<close> of this variant allocates \<open>heap_size * 2 + 10\<close> empty overflow slots, moves
  the old overflow slots to the same indices, and then moves the node of every base slot
  \<open>i\<close> that holds one into the new overflow slot \<open>i\<close>. The optional of the base slot
  still holds the node that was moved from: its key and value in the moved-from state
  (the parameters \<open>moved_key\<close> and \<open>moved_value\<close>; moving an \<^verbatim>\<open>int\<close> copies it) and no
  successor. A write behind the end of the new array is undefined behaviour, \<open>None\<close>.
\<close>

definition grow2 ::
  "('k \<Rightarrow> 'k) \<Rightarrow> ('v \<Rightarrow> 'v) \<Rightarrow> ('k, 'v) HashTable2 \<Rightarrow> ('k, 'v) HashTable2 option" where
  "grow2 moved_key moved_value t =
     (let heap_size = length (heap_array t);
          base_size = length (base_array t);
          new_heap_size = heap_size * 2 + 10;
          new_heap_array =
            fold (\<lambda>i new. if heap_array t ! i \<noteq> None then new[i := heap_array t ! i] else new)
              [0..<heap_size] (replicate new_heap_size None)
      in if list_ex (\<lambda>i. base_array t ! i \<noteq> None \<and> new_heap_size \<le> i) [0..<base_size]
         then None
         else Some (t\<lparr>base_array :=
                        map (\<lambda>s. case s of None \<Rightarrow> None
                              | Some (HashNode2 k v nx) \<Rightarrow>
                                  Some (HashNode2 (moved_key k) (moved_value v) None))
                          (base_array t),
                      heap_array :=
                        fold (\<lambda>i new. case base_array t ! i of None \<Rightarrow> new
                               | Some n \<Rightarrow> new[i := Some n])
                          [0..<base_size] new_heap_array\<rparr>))"

section \<open>Properties of the model\<close>

declare insert_fuel.simps [simp del] grow_fuel.simps [simp del]

subsection \<open>Lookup and placement\<close>

lemma get_chain_isNull: "isNull k \<Longrightarrow> get_chain c k = None"
  by (induction c k rule: get_chain.induct) (auto simp: isOccupied_def)

lemma get_isNull: "isNull k \<Longrightarrow> get t k = None"
  by (simp add: get_def get_chain_isNull)

lemma BaseSize_set_slot [simp]: "BaseSize (set_slot t i n) = BaseSize t"
  by (simp add: set_slot_def BaseSize_def)

lemma length_heap_set_slot [simp]: "length (heap (set_slot t i n)) = length (heap t)"
  by (simp add: set_slot_def)

lemma totalSize_set_slot [simp]: "totalSize (set_slot t i n) = totalSize t"
  by (simp add: totalSize_def)

lemma entryCount_set_slot [simp]: "entryCount (set_slot t i n) = entryCount t"
  by (simp add: set_slot_def)

lemma slot_set_slot: "i < totalSize t \<Longrightarrow> slot (set_slot t i n) i = n"
  by (auto simp: slot_def set_slot_def totalSize_def BaseSize_def)

lemma BaseSize_place [simp]: "BaseSize (place t k v) = BaseSize t"
  by (simp add: place_def Let_def)

lemma length_heap_place [simp]: "length (heap (place t k v)) = length (heap t)"
  by (simp add: place_def Let_def)

lemma totalSize_place [simp]: "totalSize (place t k v) = totalSize t"
  by (simp add: totalSize_def)

lemma entryCount_place [simp]: "entryCount (place t k v) = entryCount t"
  by (simp add: place_def Let_def)

lemma chain_nodes_append_tail:
  "chain_nodes (Some (append_tail n k v)) = chain_nodes (Some n) @ [(k, v)]"
  by (induction n k v rule: append_tail.induct) auto

lemma place_stores:
  assumes "0 < totalSize t"
  shows "(k, v) \<in> set (chain_nodes (Some (slot (place t k v) (hash k mod totalSize t))))"
  using assms by (simp add: place_def Let_def slot_set_slot chain_nodes_append_tail)

subsection \<open>Sizes\<close>

lemma BaseSize_grow_reset [simp]: "BaseSize (grow_reset t) = BaseSize t"
  by (simp add: grow_reset_def BaseSize_def)

lemma length_heap_grow_reset [simp]: "length (heap (grow_reset t)) = newheapLen t"
  by (simp add: grow_reset_def)

lemma entryCount_grow_reset [simp]: "entryCount (grow_reset t) = 0"
  by (simp add: grow_reset_def)

lemma totalSize_grow_reset [simp]: "totalSize (grow_reset t) = BaseSize t + newheapLen t"
  by (simp add: totalSize_def)

lemma base_grow_reset: "base (grow_reset t) = base t"
  by (simp add: grow_reset_def)

lemma newheapLen_ge: "length (heap t) \<le> newheapLen t"
  by (simp add: newheapLen_def)

lemma newheapLen_pos: "0 < newheapLen t"
  by (simp add: newheapLen_def)

lemma newheapLen_count [simp]: "newheapLen (t\<lparr>entryCount := c\<rparr>) = newheapLen t"
  by (simp add: newheapLen_def)

lemma BaseSize_count [simp]: "BaseSize (t\<lparr>entryCount := c\<rparr>) = BaseSize t"
  by (simp add: BaseSize_def)

lemma totalSize_count [simp]: "totalSize (t\<lparr>entryCount := c\<rparr>) = totalSize t"
  by (simp add: totalSize_def)

text \<open>
  No call changes the length of the base array, and the overflow array never shrinks; a
  growth that returns leaves at least \<open>newheapLen\<close> overflow slots.
\<close>

lemma sizes_kept:
  "insert_fuel n t k v = Some t' \<Longrightarrow>
     BaseSize t' = BaseSize t \<and> length (heap t) \<le> length (heap t')"
  "grow_fuel m t = Some t' \<Longrightarrow>
     BaseSize t' = BaseSize t \<and> newheapLen t \<le> length (heap t')"
  "reinsert m es t = Some t' \<Longrightarrow>
     BaseSize t' = BaseSize t \<and> length (heap t) \<le> length (heap t')"
proof (induction n t k v and m t and m es t arbitrary: t' and t' and t'
    rule: insert_fuel_grow_fuel_reinsert.induct)
  case (1 n t k v)
  let ?t1 = "t\<lparr>entryCount := entryCount t + 1\<rparr>"
  show ?case
  proof (cases "over_load ?t1")
    case False
    with "1.prems" have "t' = place ?t1 k v"
      by (simp add: insert_fuel.simps)
    then show ?thesis by simp
  next
    case True
    with "1.prems" obtain m t2 where n: "n = Suc m" and g: "grow_fuel m ?t1 = Some t2"
      and t': "t' = place t2 k v"
      by (auto simp: insert_fuel.simps split: nat.splits option.splits)
    from "1.IH" [OF refl True n g]
    have "BaseSize t2 = BaseSize t" and "newheapLen t \<le> length (heap t2)"
      by simp_all
    with t' newheapLen_ge [of t] show ?thesis by simp
  qed
next
  case (2 m t)
  from "2.prems" have "reinsert m (allEntries t) (grow_reset t) = Some t'"
    by (simp add: grow_fuel.simps)
  from "2.IH" [OF this] show ?case by simp
next
  case (3 m t)
  then show ?case by simp
next
  case (4 m k v es t)
  from "4.prems" obtain t1 where i: "insert_fuel m t k v = Some t1"
    and r: "reinsert m es t1 = Some t'"
    by (auto split: option.splits)
  from "4.IH"(1) [OF i] "4.IH"(2) [OF i r] show ?case by simp
qed

subsection \<open>Fuel\<close>

text \<open>
  With no fuel \<^verbatim>\<open>insert\<close> returns exactly when it does not have to grow, and with fuel
  1 exactly when the growth it starts does not have to start another one. A result does
  not depend on the fuel that was left over.
\<close>

lemma insert_fuel_0_None_iff:
  "insert_fuel 0 t k v = None \<longleftrightarrow> over_load (t\<lparr>entryCount := entryCount t + 1\<rparr>)"
  by (simp add: insert_fuel.simps Let_def)

lemma insert_fuel_1_None_iff:
  "insert_fuel (Suc 0) t k v = None \<longleftrightarrow>
     over_load (t\<lparr>entryCount := entryCount t + 1\<rparr>)
     \<and> grow_fuel 0 (t\<lparr>entryCount := entryCount t + 1\<rparr>) = None"
  by (simp add: insert_fuel.simps Let_def split: option.splits)

lemma fuel_mono:
  "insert_fuel n t k v = Some t' \<Longrightarrow> n \<le> n' \<Longrightarrow> insert_fuel n' t k v = Some t'"
  "grow_fuel m t = Some t' \<Longrightarrow> m \<le> m' \<Longrightarrow> grow_fuel m' t = Some t'"
  "reinsert m es t = Some t' \<Longrightarrow> m \<le> m' \<Longrightarrow> reinsert m' es t = Some t'"
proof (induction n t k v and m t and m es t arbitrary: t' n' and t' m' and t' m'
    rule: insert_fuel_grow_fuel_reinsert.induct)
  case (1 n t k v)
  let ?t1 = "t\<lparr>entryCount := entryCount t + 1\<rparr>"
  show ?case
  proof (cases "over_load ?t1")
    case False
    with "1.prems" show ?thesis
      by (simp add: insert_fuel.simps Let_def)
  next
    case True
    with "1.prems" obtain m t2 where n: "n = Suc m" and g: "grow_fuel m ?t1 = Some t2"
      and t': "t' = place t2 k v"
      by (auto simp: insert_fuel.simps split: nat.splits option.splits)
    from "1.prems"(2) n obtain m' where n': "n' = Suc m'" and le: "m \<le> m'"
      by (cases n') auto
    from "1.IH" [OF refl True n g le] have "grow_fuel m' ?t1 = Some t2" .
    with True n' t' show ?thesis
      by (simp add: insert_fuel.simps Let_def)
  qed
next
  case (2 m t)
  from "2.prems" have "reinsert m (allEntries t) (grow_reset t) = Some t'"
    by (simp add: grow_fuel.simps)
  from "2.IH" [OF this "2.prems"(2)] show ?case
    by (simp add: grow_fuel.simps)
next
  case (3 m t)
  then show ?case by simp
next
  case (4 m k v es t)
  from "4.prems" obtain t1 where i: "insert_fuel m t k v = Some t1"
    and r: "reinsert m es t1 = Some t'"
    by (auto split: option.splits)
  from "4.IH"(1) [OF i "4.prems"(2)] "4.IH"(2) [OF i r "4.prems"(2)] show ?case by simp
qed

lemma reinsert_eq_inserts: "reinsert m es t = inserts m es t"
  by (induction es arbitrary: t) (auto split: option.splits)

subsection \<open>Re-insertion below and above the load factor\<close>

lemma reinsert_no_growth:
  "4 * (entryCount t + length es) \<le> 3 * totalSize t \<Longrightarrow>
   \<exists>t'. (\<forall>m. reinsert m es t = Some t') \<and> entryCount t' = entryCount t + length es
     \<and> totalSize t' = totalSize t \<and> BaseSize t' = BaseSize t"
proof (induction es arbitrary: t)
  case Nil
  then show ?case by simp
next
  case (Cons e es)
  obtain k v where e: "e = (k, v)" by (cases e)
  let ?t1 = "t\<lparr>entryCount := entryCount t + 1\<rparr>"
  from Cons.prems have nl: "\<not> over_load ?t1"
    by (simp add: over_load_def)
  then have i: "insert_fuel m t k v = Some (place ?t1 k v)" for m
    by (simp add: insert_fuel.simps)
  from Cons.prems
  have "4 * (entryCount (place ?t1 k v) + length es) \<le> 3 * totalSize (place ?t1 k v)"
    by simp
  from Cons.IH [OF this] i e show ?case by auto
qed

lemma reinsert_growth_needed:
  "4 * entryCount t \<le> 3 * totalSize t \<Longrightarrow>
   4 * (entryCount t + length es) > 3 * totalSize t \<Longrightarrow> reinsert 0 es t = None"
proof (induction es arbitrary: t)
  case Nil
  then show ?case by simp
next
  case (Cons e es)
  obtain k v where e: "e = (k, v)" by (cases e)
  let ?t1 = "t\<lparr>entryCount := entryCount t + 1\<rparr>"
  show ?case
  proof (cases "over_load ?t1")
    case True
    then show ?thesis by (simp add: e insert_fuel.simps)
  next
    case False
    then have i: "insert_fuel 0 t k v = Some (place ?t1 k v)"
      by (simp add: insert_fuel.simps)
    from False Cons.prems have "reinsert 0 es (place ?t1 k v) = None"
      by (intro Cons.IH) (simp_all add: over_load_def)
    with i e show ?thesis by simp
  qed
qed

text \<open>
  A growth starts another growth during its re-insertion exactly when it has collected
  more pairs than three quarters of the new total size.
\<close>

lemma grow_nested_iff:
  "grow_fuel 0 t = None \<longleftrightarrow>
     4 * length (allEntries t) > 3 * (BaseSize t + newheapLen t)"
proof (cases "4 * length (allEntries t) \<le> 3 * (BaseSize t + newheapLen t)")
  case True
  then have "4 * (entryCount (grow_reset t) + length (allEntries t))
      \<le> 3 * totalSize (grow_reset t)"
    by simp
  from reinsert_no_growth [OF this] True show ?thesis
    by (auto simp: grow_fuel.simps)
next
  case False
  then have "reinsert 0 (allEntries t) (grow_reset t) = None"
    by (intro reinsert_growth_needed) simp_all
  with False show ?thesis
    by (simp add: grow_fuel.simps)
qed

lemma insert_fuel_placed:
  assumes "insert_fuel n t k v = Some t'"
  shows "\<exists>t2. t' = place t2 k v \<and> 0 < totalSize t2"
proof (cases "over_load (t\<lparr>entryCount := entryCount t + 1\<rparr>)")
  case False
  with assms have "t' = place (t\<lparr>entryCount := entryCount t + 1\<rparr>) k v"
    by (simp add: insert_fuel.simps)
  moreover from False have "0 < totalSize (t\<lparr>entryCount := entryCount t + 1\<rparr>)"
    by (simp add: over_load_def)
  ultimately show ?thesis by blast
next
  case True
  with assms obtain m t2
    where g: "grow_fuel m (t\<lparr>entryCount := entryCount t + 1\<rparr>) = Some t2"
      and t': "t' = place t2 k v"
    by (auto simp: insert_fuel.simps split: nat.splits option.splits)
  from sizes_kept(2) [OF g] newheapLen_pos [of t] have "0 < length (heap t2)"
    by auto
  then have "0 < totalSize t2"
    by (simp add: totalSize_def)
  with t' show ?thesis by blast
qed

subsection \<open>Construction from a fixed list\<close>

lemma make_table_loop_frame:
  "make_table_loop es t = Inr t' \<Longrightarrow>
     heap t' = heap t \<and> entryCount t' = entryCount t \<and> BaseSize t' = BaseSize t"
proof (induction es arbitrary: t)
  case Nil
  then show ?case by simp
next
  case (Cons e es)
  obtain k v where e: "e = (k, v)" by (cases e)
  let ?i = "hash k mod BaseSize t"
  from Cons.prems e
  have "make_table_loop es (t\<lparr>base := (base t)[?i := HashNode k v None]\<rparr>) = Inr t'"
    by (simp add: Let_def split: if_splits)
  from Cons.IH [OF this] show ?case by (simp add: BaseSize_def)
qed

lemma make_table_loop_fails_iff:
  assumes "0 < BaseSize t" and "\<forall>e \<in> set es. \<not> isNull (fst e)"
  shows "isl (make_table_loop es t) \<longleftrightarrow>
           \<not> distinct (map (\<lambda>e. hash (fst e) mod BaseSize t) es)
           \<or> (\<exists>e \<in> set es. isOccupied (base t ! (hash (fst e) mod BaseSize t)))"
  using assms
proof (induction es arbitrary: t)
  case Nil
  then show ?case by simp
next
  case (Cons e es)
  obtain k v where e: "e = (k, v)" by (cases e)
  let ?B = "BaseSize t"
  let ?i = "hash k mod ?B"
  let ?t2 = "t\<lparr>base := (base t)[?i := HashNode k v None]\<rparr>"
  show ?case
  proof (cases "isOccupied (base t ! ?i)")
    case True
    then show ?thesis by (auto simp: e Let_def)
  next
    case False
    have B2: "BaseSize ?t2 = ?B" by (simp add: BaseSize_def)
    from Cons.prems have i: "?i < length (base t)" by (simp add: BaseSize_def)
    from Cons.prems e have k: "\<not> isNull k" by simp
    have occ: "isOccupied ((base t)[?i := HashNode k v None] ! j)
        \<longleftrightarrow> ?i = j \<or> isOccupied (base t ! j)" for j
      using i k False by (auto simp: nth_list_update isOccupied_def)
    have "isl (make_table_loop es ?t2) \<longleftrightarrow>
           \<not> distinct (map (\<lambda>e. hash (fst e) mod BaseSize ?t2) es)
           \<or> (\<exists>e \<in> set es. isOccupied (base ?t2 ! (hash (fst e) mod BaseSize ?t2)))"
      using Cons.prems by (intro Cons.IH) (simp_all add: B2)
    also have "\<dots> \<longleftrightarrow> \<not> distinct (map (\<lambda>e. hash (fst e) mod ?B) es)
           \<or> (\<exists>e \<in> set es. ?i = hash (fst e) mod ?B
                  \<or> isOccupied (base t ! (hash (fst e) mod ?B)))"
      by (simp add: B2 occ)
    finally have step: "isl (make_table_loop es ?t2) \<longleftrightarrow>
           \<not> distinct (map (\<lambda>e. hash (fst e) mod ?B) es)
           \<or> (\<exists>e \<in> set es. ?i = hash (fst e) mod ?B
                  \<or> isOccupied (base t ! (hash (fst e) mod ?B)))" .
    have lhs: "make_table_loop (e # es) t = make_table_loop es ?t2"
      using False by (simp add: e Let_def)
    show ?thesis
      unfolding lhs step using False by (simp add: e image_iff) blast
  qed
qed

lemma make_table_loop_others:
  "make_table_loop es t = Inr t' \<Longrightarrow>
   j \<notin> (\<lambda>e. hash (fst e) mod BaseSize t) ` set es \<Longrightarrow> base t' ! j = base t ! j"
proof (induction es arbitrary: t)
  case Nil
  then show ?case by simp
next
  case (Cons e es)
  obtain k v where e: "e = (k, v)" by (cases e)
  let ?i = "hash k mod BaseSize t"
  let ?t2 = "t\<lparr>base := (base t)[?i := HashNode k v None]\<rparr>"
  have B2: "BaseSize ?t2 = BaseSize t" by (simp add: BaseSize_def)
  from Cons.prems(1) e have rest: "make_table_loop es ?t2 = Inr t'"
    by (simp add: Let_def split: if_splits)
  from Cons.prems(2) e
  have "j \<noteq> ?i" and "j \<notin> (\<lambda>e. hash (fst e) mod BaseSize ?t2) ` set es"
    by (auto simp: B2)
  with Cons.IH [OF rest] show ?case by simp
qed

lemma make_table_loop_placed:
  assumes "0 < BaseSize t" and "\<forall>e \<in> set es. \<not> isNull (fst e)"
    and "make_table_loop es t = Inr t'" and "(k, v) \<in> set es"
  shows "base t' ! (hash k mod BaseSize t) = HashNode k v None"
  using assms
proof (induction es arbitrary: t)
  case Nil
  then show ?case by simp
next
  case (Cons e es)
  obtain k1 v1 where e: "e = (k1, v1)" by (cases e)
  let ?B = "BaseSize t"
  let ?i = "hash k1 mod ?B"
  let ?t2 = "t\<lparr>base := (base t)[?i := HashNode k1 v1 None]\<rparr>"
  have B2: "BaseSize ?t2 = ?B" by (simp add: BaseSize_def)
  from Cons.prems have i: "?i < length (base t)" by (simp add: BaseSize_def)
  from Cons.prems e have k1: "\<not> isNull k1" by simp
  from Cons.prems(3) e have rest: "make_table_loop es ?t2 = Inr t'"
    by (simp add: Let_def split: if_splits)
  show ?case
  proof (cases "(k, v) \<in> set es")
    case True
    with Cons.IH [of ?t2] Cons.prems rest show ?thesis by (simp add: B2)
  next
    case False
    with Cons.prems e have kv: "k = k1" "v = v1" by auto
    have "\<not> isl (make_table_loop es ?t2)" using rest by simp
    with make_table_loop_fails_iff [of ?t2 es] Cons.prems
    have free: "\<forall>e \<in> set es. \<not> isOccupied (base ?t2 ! (hash (fst e) mod ?B))"
      by (auto simp: B2)
    have "\<forall>e \<in> set es. hash (fst e) mod ?B \<noteq> ?i"
    proof
      fix e' assume "e' \<in> set es"
      with free have "\<not> isOccupied (base ?t2 ! (hash (fst e') mod ?B))" by blast
      with i k1 show "hash (fst e') mod ?B \<noteq> ?i"
        by (auto simp: isOccupied_def)
    qed
    then have "?i \<notin> (\<lambda>e. hash (fst e) mod BaseSize ?t2) ` set es"
      by (auto simp: B2)
    with rest have "base t' ! ?i = base ?t2 ! ?i"
      by (rule make_table_loop_others)
    then show ?thesis using i by (simp add: kv)
  qed
qed

subsection \<open>Keys that are present twice, keys that are absent\<close>

lemma slot_count [simp]: "slot (t\<lparr>entryCount := c\<rparr>) i = slot t i"
  by (simp add: slot_def BaseSize_def)

lemma get_chain_append_tail:
  "get_chain (Some n) k = Some v \<Longrightarrow> get_chain (Some (append_tail n k' v')) k = Some v"
  by (induction n k' v' rule: append_tail.induct) (auto simp: isOccupied_def split: if_splits)

text \<open>
  When \<^verbatim>\<open>insert\<close> does not grow and the head of the key's slot is occupied, the new
  pair goes to the end of the chain and \<^verbatim>\<open>get\<close> keeps returning the value of the first
  node with the key.
\<close>

lemma insert_present_no_growth:
  assumes "get t k = Some v"
    and "isOccupied (slot t (hash k mod totalSize t))"
    and "\<not> over_load (t\<lparr>entryCount := entryCount t + 1\<rparr>)"
  shows "\<exists>t'. insert_fuel n t k v' = Some t' \<and> get t' k = Some v
           \<and> chain_nodes (Some (slot t' (hash k mod totalSize t')))
             = chain_nodes (Some (slot t (hash k mod totalSize t))) @ [(k, v')]"
proof -
  let ?t1 = "t\<lparr>entryCount := Suc (entryCount t)\<rparr>"
  let ?i = "hash k mod totalSize t"
  from assms(3) have pos: "0 < totalSize t" by (simp add: over_load_def)
  from assms(3) have i: "insert_fuel n t k v' = Some (place ?t1 k v')"
    by (simp add: insert_fuel.simps)
  from assms(2) have p: "place ?t1 k v' = set_slot ?t1 ?i (append_tail (slot t ?i) k v')"
    by (simp add: place_def Let_def)
  from pos have s: "slot (place ?t1 k v') ?i = append_tail (slot t ?i) k v'"
    unfolding p by (simp add: slot_set_slot)
  from assms(1) have "get_chain (Some (slot t ?i)) k = Some v" by (simp add: get_def)
  then have "get (place ?t1 k v') k = Some v"
    by (simp add: get_def s get_chain_append_tail)
  with i s show ?thesis by (simp add: chain_nodes_append_tail)
qed

lemma get_chain_None_iff:
  "\<not> isNull k \<Longrightarrow> get_chain c k = None \<longleftrightarrow> k \<notin> fst ` set (chain_nodes c)"
  by (induction c k rule: get_chain.induct) (auto simp: isOccupied_def)

lemma unlink_absent: "k \<notin> fst ` set (chain_nodes c) \<Longrightarrow> unlink c k = c"
  by (induction c k rule: unlink.induct) auto

lemma remove_chain_absent:
  "k \<notin> fst ` set (chain_nodes (Some n)) \<Longrightarrow> remove_chain n k = n"
  by (cases n) (auto simp: unlink_absent)

lemma set_slot_same:
  "set_slot (t\<lparr>entryCount := c\<rparr>) i (slot t i) = t\<lparr>entryCount := c\<rparr>"
  by (simp add: set_slot_def slot_def BaseSize_def)

text \<open>
  \<^verbatim>\<open>remove\<close> of a key that \<^verbatim>\<open>get\<close> does not find leaves every node as it is and
  decrements the counter (unless it is zero).
\<close>

lemma remove_absent:
  assumes "\<not> isNull k" and "get t k = None"
  shows "remove t k = t\<lparr>entryCount := entryCount t - 1\<rparr>"
proof -
  let ?t1 = "t\<lparr>entryCount := entryCount t - 1\<rparr>"
  let ?i = "hash k mod totalSize t"
  from assms have "k \<notin> fst ` set (chain_nodes (Some (slot t ?i)))"
    by (simp add: get_def get_chain_None_iff)
  then have "remove_chain (slot ?t1 ?i) k = slot ?t1 ?i"
    by (simp add: remove_chain_absent)
  then show ?thesis
    by (cases "entryCount t = 0") (simp_all add: remove_def Let_def set_slot_same)
qed

subsection \<open>Growth, removal and copying on every table\<close>

text \<open>
  A growth does not look behind the heads of the overflow array: it gives the same table
  when every overflow chain is cut behind its head first.
\<close>

lemma key_cut_chain [simp]: "key (cut_chain n) = key n"
  by (simp add: cut_chain_def)

lemma val_cut_chain [simp]: "val (cut_chain n) = val n"
  by (simp add: cut_chain_def)

lemma allEntries_heads_only:
  "allEntries (t\<lparr>heap := map cut_chain (heap t)\<rparr>) = allEntries t"
  by (simp add: allEntries_def isOccupied_def comp_def cong: if_cong)

lemma grow_fuel_heads_only:
  "grow_fuel m (t\<lparr>heap := map cut_chain (heap t)\<rparr>) = grow_fuel m t"
  by (simp add: grow_fuel.simps allEntries_heads_only grow_reset_def newheapLen_def)

text \<open>
  Removing the key of a head that has a successor leaves the successor alone in the slot,
  whatever followed it.
\<close>

lemma remove_chain_head:
  "remove_chain (HashNode k v (Some (HashNode k2 v2 nx2))) k = HashNode k2 v2 None"
  by simp

text \<open>
  The loop of the node's copy assignment rebuilds the same chain, and the copy of a table
  is the table with an empty overflow array.
\<close>

lemma copy_chain_id: "copy_chain c = c"
  by (induction c rule: copy_chain.induct) auto

lemma copy_node_id: "copy_node n = n"
  by (cases n) (simp add: copy_node_def copy_chain_id)

lemma copy_table_eq: "copy_table t = t\<lparr>heap := []\<rparr>"
  by (cases t) (simp add: copy_table_def Let_def copy_node_id map_idI)

subsection \<open>Growths that never end\<close>

text \<open>
  The base array keeps its pairs through a growth and gets every collected pair with a
  small key once more. When a growth collects more pairs from such a base array than three
  quarters of the new total size, its re-insertion reaches the load factor after fewer
  insertions than it has pairs, the nested growth is in the same position with a doubled
  overflow array, and so on: no amount of fuel gives a result.
\<close>

lemma collect_chain_all_occupied:
  "list_all (\<lambda>e. \<not> isNull (fst e)) (chain_nodes c) \<Longrightarrow> collect_chain c = chain_nodes c"
  by (induction c rule: chain_nodes.induct) (auto simp: isOccupied_def)

lemma collect_chain_unoccupied: "\<not> isOccupied n \<Longrightarrow> collect_chain (Some n) = []"
  by (cases n) simp

lemma place_small:
  assumes "hash k < BaseSize t"
  shows "place t k v = t\<lparr>base := (base t)[hash k :=
           (if \<not> isOccupied (base t ! hash k) then HashNode k v None
            else append_tail (base t ! hash k) k v)]\<rparr>"
proof -
  from assms have "hash k mod totalSize t = hash k"
    by (simp add: totalSize_def)
  with assms show ?thesis
    by (simp add: place_def Let_def slot_def set_slot_def)
qed

lemma length_concat_update:
  assumes "i < length xs"
  shows "length (concat (map f (xs[i := y]))) + length (f (xs ! i))
       = length (concat (map f xs)) + length (f y)"
proof -
  from assms have xs: "xs = take i xs @ xs ! i # drop (Suc i) xs"
    by (simp add: id_take_nth_drop)
  from assms have "xs[i := y] = take i xs @ y # drop (Suc i) xs"
    by (simp add: upd_conv_take_nth_drop)
  then have "length (concat (map f (xs[i := y]))) + length (f (xs ! i))
      = length (concat (map f (take i xs))) + length (f y)
        + length (concat (map f (drop (Suc i) xs))) + length (f (xs ! i))"
    by simp
  also have "\<dots> = length (concat (map f (take i xs @ xs ! i # drop (Suc i) xs))) + length (f y)"
    by simp
  also have "\<dots> = length (concat (map f xs)) + length (f y)"
    using xs by simp
  finally show ?thesis .
qed

lemma place_small_count:
  assumes "hash k < BaseSize t" and "\<not> isNull k" and "small_chains t"
  shows "base_count (place t k v) = base_count t + 1"
proof -
  let ?i = "hash k"
  let ?n = "base t ! ?i"
  let ?new = "if \<not> isOccupied ?n then HashNode k v None else append_tail ?n k v"
  from assms(1) have i: "?i < length (base t)" by (simp add: BaseSize_def)
  have new: "length (collect_chain (Some ?new)) = length (collect_chain (Some ?n)) + 1"
  proof (cases "isOccupied ?n")
    case False
    with assms(2) show ?thesis
      by (simp add: collect_chain_unoccupied isOccupied_def)
  next
    case True
    from assms(3) i True
    have all: "list_all (\<lambda>e. \<not> isNull (fst e) \<and> hash (fst e) < BaseSize t) (chain_nodes (Some ?n))"
      by (auto simp: small_chains_def list_all_length)
    then have old: "list_all (\<lambda>e. \<not> isNull (fst e)) (chain_nodes (Some ?n))"
      by (simp add: list_all_iff)
    with assms(2)
    have "list_all (\<lambda>e. \<not> isNull (fst e)) (chain_nodes (Some (append_tail ?n k v)))"
      by (simp add: chain_nodes_append_tail)
    then have "collect_chain (Some (append_tail ?n k v)) = chain_nodes (Some ?n) @ [(k, v)]"
      by (simp add: collect_chain_all_occupied chain_nodes_append_tail)
    with old True show ?thesis
      by (simp add: collect_chain_all_occupied)
  qed
  from length_concat_update [OF i, of "\<lambda>n. collect_chain (Some n)" ?new] new
  show ?thesis
    by (simp add: base_count_def place_small [OF assms(1)])
qed

lemma place_small_chains:
  assumes "hash k < BaseSize t" and "\<not> isNull k" and "small_chains t"
  shows "small_chains (place t k v)"
proof -
  let ?i = "hash k"
  let ?n = "base t ! ?i"
  let ?new = "if \<not> isOccupied ?n then HashNode k v None else append_tail ?n k v"
  let ?ok = "\<lambda>n. \<not> isOccupied n \<or>
        list_all (\<lambda>e. \<not> isNull (fst e) \<and> hash (fst e) < BaseSize t) (chain_nodes (Some n))"
  from assms(1) have i: "?i < length (base t)" by (simp add: BaseSize_def)
  from assms(3) have all: "\<forall>n \<in> set (base t). ?ok n"
    by (simp add: small_chains_def list_all_iff)
  with i have n: "?ok ?n" by simp
  from assms(1,2) n have new: "?ok ?new"
    by (auto simp: chain_nodes_append_tail)
  have "set ((base t)[?i := ?new]) \<subseteq> insert ?new (set (base t))"
    by (rule set_update_subset_insert)
  with all new have "\<forall>n \<in> set ((base t)[?i := ?new]). ?ok n"
    by blast
  then show ?thesis
    by (simp add: small_chains_def place_small [OF assms(1)] BaseSize_def list_all_iff)
qed


lemma small_chains_count [simp]: "small_chains (t\<lparr>entryCount := c\<rparr>) = small_chains t"
  by (simp add: small_chains_def BaseSize_def)

lemma base_count_count [simp]: "base_count (t\<lparr>entryCount := c\<rparr>) = base_count t"
  by (simp add: base_count_def)

lemma small_chains_grow_reset [simp]: "small_chains (grow_reset t) = small_chains t"
  by (simp add: small_chains_def grow_reset_def BaseSize_def)

lemma base_count_grow_reset [simp]: "base_count (grow_reset t) = base_count t"
  by (simp add: base_count_def grow_reset_def)

lemma set_collect_chain: "set (collect_chain c) \<subseteq> set (chain_nodes c)"
  by (induction c rule: collect_chain.induct) auto

lemma small_chains_collected:
  assumes "small_chains t"
  shows "list_all (\<lambda>e. \<not> isNull (fst e) \<and> hash (fst e) < BaseSize t)
           (concat (map (\<lambda>n. collect_chain (Some n)) (base t)))"
proof -
  have "\<not> isNull (fst e) \<and> hash (fst e) < BaseSize t"
    if n: "n \<in> set (base t)" and e: "e \<in> set (collect_chain (Some n))" for n e
  proof (cases "isOccupied n")
    case False
    with e show ?thesis by (simp add: collect_chain_unoccupied)
  next
    case True
    with assms n
    have "list_all (\<lambda>e. \<not> isNull (fst e) \<and> hash (fst e) < BaseSize t) (chain_nodes (Some n))"
      by (auto simp: small_chains_def list_all_iff)
    with e set_collect_chain [of "Some n"] show ?thesis
      by (auto simp: list_all_iff)
  qed
  then show ?thesis by (auto simp: list_all_iff)
qed

lemma reinsert_diverges_step:
  fixes s :: "'v::zero HashTable"
  assumes IH: "\<And>t :: 'v HashTable. small_chains t \<Longrightarrow> 0 < BaseSize t \<Longrightarrow>
      4 * base_count t > 3 * (BaseSize t + newheapLen t) \<Longrightarrow> grow_fuel m t = None"
    and "small_chains s" and "0 < BaseSize s" and "0 < length (heap s)"
    and "list_all (\<lambda>e. \<not> isNull (fst e) \<and> hash (fst e) < BaseSize s) bs"
    and "4 * entryCount s \<le> 3 * totalSize s"
    and "4 * (entryCount s + length bs) > 3 * totalSize s"
    and "4 * base_count s \<ge> 3 * totalSize s + 1 + 4 * entryCount s"
  shows "reinsert (Suc m) (bs @ rest) s = None"
  using assms(2-)
proof (induction bs arbitrary: s)
  case Nil
  then show ?case by simp
next
  case (Cons e bs)
  obtain k v where e: "e = (k, v)" by (cases e)
  let ?t1 = "s\<lparr>entryCount := entryCount s + 1\<rparr>"
  from Cons.prems(4) e have k: "\<not> isNull k" "hash k < BaseSize s" by simp_all
  show ?case
  proof (cases "over_load ?t1")
    case True
    from Cons.prems(3) have nh: "newheapLen s = length (heap s) * 2"
      by (simp add: newheapLen_def)
    from True have "4 * (entryCount s + 1) > 3 * totalSize s"
      by (simp add: over_load_def)
    with Cons.prems(2,7) have "4 * base_count ?t1 > 3 * (BaseSize ?t1 + newheapLen ?t1)"
      by (simp add: nh totalSize_def)
    with Cons.prems(1,2) have "grow_fuel m ?t1 = None"
      by (intro IH) simp_all
    with True show ?thesis
      by (simp add: e insert_fuel.simps)
  next
    case False
    let ?s' = "place ?t1 k v"
    from False have i: "insert_fuel (Suc m) s k v = Some ?s'"
      by (simp add: insert_fuel.simps)
    from k Cons.prems(1) have sc: "small_chains ?s'"
      by (intro place_small_chains) simp_all
    from k Cons.prems(1) have bc: "base_count ?s' = base_count s + 1"
      using place_small_count [of k ?t1 v] by simp
    from False have le: "4 * entryCount ?s' \<le> 3 * totalSize ?s'"
      by (simp add: over_load_def)
    have "reinsert (Suc m) (bs @ rest) ?s' = None"
    proof (rule Cons.IH [OF sc])
      from Cons.prems(2) show "0 < BaseSize ?s'" by simp
      from Cons.prems(3) show "0 < length (heap ?s')" by simp
      from Cons.prems(4) show
        "list_all (\<lambda>e. \<not> isNull (fst e) \<and> hash (fst e) < BaseSize ?s') bs" by simp
      from le show "4 * entryCount ?s' \<le> 3 * totalSize ?s'" .
      from Cons.prems(6) show "4 * (entryCount ?s' + length bs) > 3 * totalSize ?s'" by simp
      from Cons.prems(7) bc
      show "4 * base_count ?s' \<ge> 3 * totalSize ?s' + 1 + 4 * entryCount ?s'" by simp
    qed
    with i e show ?thesis by simp
  qed
qed

lemma length_allEntries_ge: "base_count t \<le> length (allEntries t)"
  by (simp add: base_count_def allEntries_def)

lemma grow_diverges:
  fixes t :: "'v::zero HashTable"
  assumes "small_chains t" and "0 < BaseSize t"
    and "4 * base_count t > 3 * (BaseSize t + newheapLen t)"
  shows "grow_fuel m t = None"
  using assms
proof (induction m arbitrary: t)
  case 0
  with length_allEntries_ge [of t] show ?case
    by (simp add: grow_nested_iff)
next
  case (Suc m)
  let ?bs = "concat (map (\<lambda>n. collect_chain (Some n)) (base t))"
  let ?hs = "concat (map (\<lambda>n. if isOccupied n then [(key n, val n)] else []) (heap t))"
  have "reinsert (Suc m) (?bs @ ?hs) (grow_reset t) = None"
  proof (rule reinsert_diverges_step)
    fix t' :: "'v HashTable"
    assume "small_chains t'" "0 < BaseSize t'"
      "4 * base_count t' > 3 * (BaseSize t' + newheapLen t')"
    then show "grow_fuel m t' = None" by (rule Suc.IH)
  next
    from Suc.prems(1) show "small_chains (grow_reset t)" by simp
    from Suc.prems(2) show "0 < BaseSize (grow_reset t)" by simp
    from newheapLen_pos [of t] show "0 < length (heap (grow_reset t))" by simp
    from small_chains_collected [OF Suc.prems(1)]
    show "list_all (\<lambda>e. \<not> isNull (fst e) \<and> hash (fst e) < BaseSize (grow_reset t)) ?bs"
      by simp
    show "4 * entryCount (grow_reset t) \<le> 3 * totalSize (grow_reset t)" by simp
    from Suc.prems(3)
    show "4 * (entryCount (grow_reset t) + length ?bs) > 3 * totalSize (grow_reset t)"
      by (simp add: base_count_def)
    from Suc.prems(3)
    show "4 * base_count (grow_reset t)
        \<ge> 3 * totalSize (grow_reset t) + 1 + 4 * entryCount (grow_reset t)"
      by simp
  qed
  then show ?case
    by (simp add: grow_fuel.simps allEntries_def)
qed


lemma insert_diverges:
  fixes t :: "'v::zero HashTable"
  assumes "small_chains t" and "0 < BaseSize t"
    and "over_load (t\<lparr>entryCount := entryCount t + 1\<rparr>)"
    and "4 * base_count t > 3 * (BaseSize t + newheapLen t)"
  shows "insert_fuel n t k v = None"
proof (cases n)
  case 0
  with assms(3) show ?thesis by (simp add: insert_fuel.simps)
next
  case (Suc m)
  from assms have "grow_fuel m (t\<lparr>entryCount := entryCount t + 1\<rparr>) = None"
    by (intro grow_diverges) simp_all
  with assms(3) Suc show ?thesis by (simp add: insert_fuel.simps)
qed

lemma inserts_snoc:
  "inserts n (es @ [(k, v)]) t =
     (case inserts n es t of None \<Rightarrow> None | Some t' \<Rightarrow> insert_fuel n t' k v)"
  by (induction es arbitrary: t) (auto split: option.splits)

lemma inserts_fuel_mono:
  "inserts n es t = Some t' \<Longrightarrow> n \<le> n' \<Longrightarrow> inserts n' es t = Some t'"
  using fuel_mono(3) [of n es t t' n'] by (simp add: reinsert_eq_inserts)

text \<open>
  With \<^verbatim>\<open>BaseSize = 10\<close>, twelve distinct keys: the first growth leaves the keys 1 to 7
  twice in the base array, and the growth that the insertion of 26 starts collects 16 pairs
  from the base array for a new total size of 18.
\<close>

lemma twelve_inserts_never_return:
  "inserts n [(IntKey 1, 1), (IntKey 2, 2), (IntKey 3, 3), (IntKey 4, 4), (IntKey 5, 5),
              (IntKey 6, 6), (IntKey 7, 7), (IntKey 8, 8), (IntKey 9, 9), (IntKey 24, 24),
              (IntKey 25, 25), (IntKey 26, 26)] (empty_table 10 :: int HashTable) = None"
proof -
  let ?es = "[(IntKey 1, 1), (IntKey 2, 2), (IntKey 3, 3), (IntKey 4, 4), (IntKey 5, 5),
              (IntKey 6, 6), (IntKey 7, 7), (IntKey 8, 8), (IntKey 9, 9), (IntKey 24, 24),
              (IntKey 25, 25)] :: (IntKey \<times> int) list"
  let ?t0 = "empty_table 10 :: int HashTable"
  have "case inserts 1 ?es ?t0 of None \<Rightarrow> False
        | Some T \<Rightarrow> small_chains T \<and> 0 < BaseSize T
            \<and> over_load (T\<lparr>entryCount := entryCount T + 1\<rparr>)
            \<and> 4 * base_count T > 3 * (BaseSize T + newheapLen T)"
    by code_simp
  then obtain T where T: "inserts 1 ?es ?t0 = Some T"
    and d: "small_chains T" "0 < BaseSize T"
      "over_load (T\<lparr>entryCount := entryCount T + 1\<rparr>)"
      "4 * base_count T > 3 * (BaseSize T + newheapLen T)"
    by (auto split: option.splits)
  have "inserts n (?es @ [(IntKey 26, 26)]) ?t0 = None"
  proof (cases "inserts n ?es ?t0")
    case None
    then show ?thesis by (simp only: inserts_snoc option.case)
  next
    case (Some T')
    from inserts_fuel_mono [OF Some, of "max n 1"] inserts_fuel_mono [OF T, of "max n 1"]
    have "T' = T" by simp
    with Some insert_diverges [OF d, of n "IntKey 26" 26] show ?thesis
      by (simp only: inserts_snoc option.case)
  qed
  then show ?thesis by simp
qed

subsection \<open>The variant with optional slots\<close>

text \<open>
  Here a slot is occupied by any node, so \<^verbatim>\<open>from_nice_pairs\<close> fails exactly when two
  pairs of the list have the same base index, for every key.
\<close>

lemma from_nice_pairs_loop_frame:
  "from_nice_pairs_loop h es t = Inr t' \<Longrightarrow>
     heap_array t' = heap_array t \<and> length (base_array t') = length (base_array t)
     \<and> num_entries t' = num_entries t + length es"
proof (induction es arbitrary: t)
  case Nil
  then show ?case by simp
next
  case (Cons e es)
  obtain k v where e: "e = (k, v)" by (cases e)
  let ?i = "h k mod length (base_array t)"
  let ?t2 = "t\<lparr>base_array := (base_array t)[?i := Some (HashNode2 k v None)],
               num_entries := num_entries t + 1\<rparr>"
  from Cons.prems e have "from_nice_pairs_loop h es ?t2 = Inr t'"
    by (simp add: Let_def split: if_splits)
  from Cons.IH [OF this] show ?case by simp
qed

lemma from_nice_pairs_loop_fails_iff:
  assumes "0 < length (base_array t)"
  shows "isl (from_nice_pairs_loop h es t) \<longleftrightarrow>
           \<not> distinct (map (\<lambda>e. h (fst e) mod length (base_array t)) es)
           \<or> (\<exists>e \<in> set es. base_array t ! (h (fst e) mod length (base_array t)) \<noteq> None)"
  using assms
proof (induction es arbitrary: t)
  case Nil
  then show ?case by simp
next
  case (Cons e es)
  obtain k v where e: "e = (k, v)" by (cases e)
  let ?B = "length (base_array t)"
  let ?i = "h k mod ?B"
  let ?t2 = "t\<lparr>base_array := (base_array t)[?i := Some (HashNode2 k v None)],
               num_entries := num_entries t + 1\<rparr>"
  show ?case
  proof (cases "base_array t ! ?i = None")
    case False
    then show ?thesis by (auto simp: e Let_def)
  next
    case True
    from Cons.prems have i: "?i < ?B" by simp
    have occ: "(base_array t)[?i := Some (HashNode2 k v None)] ! j \<noteq> None
        \<longleftrightarrow> ?i = j \<or> base_array t ! j \<noteq> None" for j
      using i by (auto simp: nth_list_update)
    have "isl (from_nice_pairs_loop h es ?t2) \<longleftrightarrow>
           \<not> distinct (map (\<lambda>e. h (fst e) mod length (base_array ?t2)) es)
           \<or> (\<exists>e \<in> set es. base_array ?t2 ! (h (fst e) mod length (base_array ?t2)) \<noteq> None)"
      using Cons.prems by (intro Cons.IH) simp
    also have "\<dots> \<longleftrightarrow> \<not> distinct (map (\<lambda>e. h (fst e) mod ?B) es)
           \<or> (\<exists>e \<in> set es. ?i = h (fst e) mod ?B \<or> base_array t ! (h (fst e) mod ?B) \<noteq> None)"
      using occ by simp
    finally have step: "isl (from_nice_pairs_loop h es ?t2) \<longleftrightarrow>
           \<not> distinct (map (\<lambda>e. h (fst e) mod ?B) es)
           \<or> (\<exists>e \<in> set es. ?i = h (fst e) mod ?B \<or> base_array t ! (h (fst e) mod ?B) \<noteq> None)" .
    have lhs: "from_nice_pairs_loop h (e # es) t = from_nice_pairs_loop h es ?t2"
      using True by (simp add: e Let_def)
    show ?thesis
      unfolding lhs step using True by (simp add: e image_iff) blast
  qed
qed

lemma from_nice_pairs_loop_others:
  "from_nice_pairs_loop h es t = Inr t' \<Longrightarrow>
   j \<notin> (\<lambda>e. h (fst e) mod length (base_array t)) ` set es \<Longrightarrow>
   base_array t' ! j = base_array t ! j"
proof (induction es arbitrary: t)
  case Nil
  then show ?case by simp
next
  case (Cons e es)
  obtain k v where e: "e = (k, v)" by (cases e)
  let ?i = "h k mod length (base_array t)"
  let ?t2 = "t\<lparr>base_array := (base_array t)[?i := Some (HashNode2 k v None)],
               num_entries := num_entries t + 1\<rparr>"
  from Cons.prems(1) e have rest: "from_nice_pairs_loop h es ?t2 = Inr t'"
    by (simp add: Let_def split: if_splits)
  from Cons.prems(2) e
  have "j \<noteq> ?i" and "j \<notin> (\<lambda>e. h (fst e) mod length (base_array ?t2)) ` set es"
    by auto
  with Cons.IH [OF rest] show ?case by simp
qed

lemma from_nice_pairs_loop_placed:
  assumes "0 < length (base_array t)"
    and "from_nice_pairs_loop h es t = Inr t'" and "(k, v) \<in> set es"
  shows "base_array t' ! (h k mod length (base_array t)) = Some (HashNode2 k v None)"
  using assms
proof (induction es arbitrary: t)
  case Nil
  then show ?case by simp
next
  case (Cons e es)
  obtain k1 v1 where e: "e = (k1, v1)" by (cases e)
  let ?B = "length (base_array t)"
  let ?i = "h k1 mod ?B"
  let ?t2 = "t\<lparr>base_array := (base_array t)[?i := Some (HashNode2 k1 v1 None)],
               num_entries := num_entries t + 1\<rparr>"
  from Cons.prems have i: "?i < ?B" by simp
  from Cons.prems(2) e have rest: "from_nice_pairs_loop h es ?t2 = Inr t'"
    by (simp add: Let_def split: if_splits)
  show ?case
  proof (cases "(k, v) \<in> set es")
    case True
    with Cons.IH [of ?t2] Cons.prems rest show ?thesis by simp
  next
    case False
    with Cons.prems e have kv: "k = k1" "v = v1" by auto
    have "\<not> isl (from_nice_pairs_loop h es ?t2)" using rest by simp
    with from_nice_pairs_loop_fails_iff [of ?t2 h es] Cons.prems
    have free: "\<forall>e \<in> set es. base_array ?t2 ! (h (fst e) mod ?B) = None"
      by auto
    have "\<forall>e \<in> set es. h (fst e) mod ?B \<noteq> ?i"
    proof
      fix e' assume "e' \<in> set es"
      with free have "base_array ?t2 ! (h (fst e') mod ?B) = None" by blast
      with i show "h (fst e') mod ?B \<noteq> ?i"
        by auto
    qed
    then have "?i \<notin> (\<lambda>e. h (fst e) mod length (base_array ?t2)) ` set es"
      by auto
    with rest have "base_array t' ! ?i = base_array ?t2 ! ?i"
      by (rule from_nice_pairs_loop_others)
    then show ?thesis using i by (simp add: kv)
  qed
qed

lemma from_nice_pairs_collision_iff:
  assumes "0 < B"
  shows "(isl (from_nice_pairs h B es) \<longleftrightarrow> \<not> distinct (map (\<lambda>e. h (fst e) mod B) es))
         \<and> (\<forall>t. from_nice_pairs h B es = Inr t \<longrightarrow>
               heap_array t = [] \<and> num_entries t = length es
               \<and> (\<forall>e \<in> set es. get2 h t (fst e) = Some (snd e)))"
proof (intro conjI allI impI ballI)
  let ?t0 = "\<lparr>base_array = replicate B None, heap_array = [], num_entries = 0\<rparr>
      :: ('a, 'b) HashTable2"
  from assms have "\<not> (\<exists>e \<in> set es. base_array ?t0 ! (h (fst e) mod B) \<noteq> None)"
    by simp
  with from_nice_pairs_loop_fails_iff [of ?t0 h es] assms
  show "isl (from_nice_pairs h B es :: error + ('a, 'b) HashTable2)
      \<longleftrightarrow> \<not> distinct (map (\<lambda>e. h (fst e) mod B) es)"
    by (simp add: from_nice_pairs_def)
next
  fix t :: "('a, 'b) HashTable2" assume "from_nice_pairs h B es = Inr t"
  then show "heap_array t = []" and "num_entries t = length es"
    by (auto simp: from_nice_pairs_def dest: from_nice_pairs_loop_frame)
next
  fix t :: "('a, 'b) HashTable2" and e
  assume t: "from_nice_pairs h B es = Inr t" and e: "e \<in> set es"
  let ?t0 = "\<lparr>base_array = replicate B None, heap_array = [], num_entries = 0\<rparr>
      :: ('a, 'b) HashTable2"
  from t have loop: "from_nice_pairs_loop h es ?t0 = Inr t"
    by (simp add: from_nice_pairs_def)
  from from_nice_pairs_loop_frame [OF loop]
  have sz: "heap_array t = []" "length (base_array t) = B"
    by simp_all
  from e have "(fst e, snd e) \<in> set es" by simp
  from from_nice_pairs_loop_placed [OF _ loop this] assms
  have "base_array t ! (h (fst e) mod B) = Some (HashNode2 (fst e) (snd e) None)"
    by simp
  then show "get2 h t (fst e) = Some (snd e)"
    using assms by (simp add: get2_def sz)
qed


text \<open>
  The growth of this variant's test \<^verbatim>\<open>grow_test\<close> (\<^verbatim>\<open>HashTable<int, std::string, 2>\<close>,
  key 1 in base slot 1, the insertion of key 2 grows): the base slot still holds a node
  with the key afterwards, and the pair is in overflow slot 1 as well.
\<close>

lemma grow2_keeps_base_engaged:
  "grow2 moved_key moved_value
     \<lparr>base_array = [None, Some (HashNode2 (1 :: int) ''one'' None)], heap_array = [],
      num_entries = 2\<rparr>
   = Some \<lparr>base_array = [None, Some (HashNode2 (moved_key 1) (moved_value ''one'') None)],
           heap_array = [None, Some (HashNode2 1 ''one'' None), None, None, None, None, None,
                         None, None, None],
           num_entries = 2\<rparr>"
  by (simp add: grow2_def Let_def upt_rec [of 0] upt_rec [of 1] replicate_def)

section \<open>The claims\<close>

text \<open>
  C1 (round trip). The claim: after any sequence of \<^verbatim>\<open>insert\<close> calls with distinct keys,
  none of them the sentinel, and no \<^verbatim>\<open>remove\<close>, \<^verbatim>\<open>get\<close> of every inserted key gives
  the inserted value. The code loses a key: with \<^verbatim>\<open>BaseSize = 1\<close>, the keys 1 and 6 share
  the overflow slot 0 after the first growth (total size 5), the insertion of 4 grows again,
  and \<^verbatim>\<open>grow\<close> collects from the overflow array only the head of each chain. Before the
  insertion of 4 the key 6 is found, after it the key is absent.
\<close>

theorem insert_get_roundtrip_lost_by_growth:
  "map_option (\<lambda>t. get t (IntKey 6))
     (inserts 1 [(IntKey 1, 100), (IntKey 6, 600), (IntKey 2, 200), (IntKey 3, 300)]
        (empty_table 1))
   = Some (Some (600 :: int))
   \<and> map_option (\<lambda>t. get t (IntKey 6))
     (inserts 1 [(IntKey 1, 100), (IntKey 6, 600), (IntKey 2, 200), (IntKey 3, 300),
                 (IntKey 4, 400)]
        (empty_table 1))
   = Some (None :: int option)"
  by code_simp

text \<open>
  The same with \<^verbatim>\<open>BaseSize = 10\<close>, the size of the test program: twelve distinct keys,
  two growths, neither of them nested, and the key 27 is gone.
\<close>

lemma roundtrip_lost_base_size_10:
  "map_option (\<lambda>t. get t (IntKey 27))
     (inserts 1 [(IntKey 10, 1), (IntKey 11, 2), (IntKey 12, 3), (IntKey 13, 4),
                 (IntKey 24, 5), (IntKey 25, 6), (IntKey 26, 7), (IntKey 27, 8),
                 (IntKey 38, 9), (IntKey 39, 10), (IntKey 40, 11), (IntKey 41, 12)]
        (empty_table 10))
   = Some (None :: int option)"
  by code_simp

text \<open>
  C2 (growth keeps the multiset of entries). The claim: the multiset of stored pairs is
  the same before and after a growth. The code changes it both ways. With
  \<^verbatim>\<open>BaseSize = 4\<close> and the keys 1, 2, 3 stored, the growth that the fourth insertion
  starts leaves every pair in the base array and inserts it once more, so each pair is
  stored twice. With \<^verbatim>\<open>BaseSize = 1\<close> and the keys 1, 6, 2, 3 stored, the growth
  drops the pair of key 6, which is chained behind key 1 in the overflow array.
\<close>

theorem growth_changes_stored_entries:
  "map_option stored_entries
     (inserts 0 [(IntKey 1, 100), (IntKey 2, 200), (IntKey 3, 300)] (empty_table 4))
   = Some [(IntKey 1, 100 :: int), (IntKey 2, 200), (IntKey 3, 300)]
   \<and> map_option stored_entries
     (Option.bind
        (inserts 0 [(IntKey 1, 100), (IntKey 2, 200), (IntKey 3, 300)] (empty_table 4))
        (\<lambda>t. grow_fuel 0 (t\<lparr>entryCount := entryCount t + 1\<rparr>)))
   = Some [(IntKey 1, 100 :: int), (IntKey 1, 100), (IntKey 2, 200), (IntKey 2, 200),
           (IntKey 3, 300), (IntKey 3, 300)]
   \<and> map_option stored_entries
     (inserts 1 [(IntKey 1, 100), (IntKey 6, 600), (IntKey 2, 200), (IntKey 3, 300)]
        (empty_table 1))
   = Some [(IntKey 1, 100 :: int), (IntKey 6, 600), (IntKey 2, 200), (IntKey 3, 300)]
   \<and> map_option stored_entries
     (Option.bind
        (inserts 1 [(IntKey 1, 100), (IntKey 6, 600), (IntKey 2, 200), (IntKey 3, 300)]
           (empty_table 1))
        (\<lambda>t. grow_fuel 0 (t\<lparr>entryCount := entryCount t + 1\<rparr>)))
   = Some [(IntKey 1, 100 :: int), (IntKey 2, 200), (IntKey 3, 300)]
   \<and> mset [(IntKey 1, 100 :: int), (IntKey 1, 100), (IntKey 2, 200), (IntKey 2, 200),
            (IntKey 3, 300), (IntKey 3, 300)]
     \<noteq> mset [(IntKey 1, 100 :: int), (IntKey 2, 200), (IntKey 3, 300)]
   \<and> mset [(IntKey 1, 100 :: int), (IntKey 2, 200), (IntKey 3, 300)]
     \<noteq> mset [(IntKey 1, 100 :: int), (IntKey 6, 600), (IntKey 2, 200), (IntKey 3, 300)]"
proof -
  have "size (mset [(IntKey 1, 100 :: int), (IntKey 1, 100), (IntKey 2, 200),
                    (IntKey 2, 200), (IntKey 3, 300), (IntKey 3, 300)])
      \<noteq> size (mset [(IntKey 1, 100 :: int), (IntKey 2, 200), (IntKey 3, 300)])"
    by simp
  then have dup: "mset [(IntKey 1, 100 :: int), (IntKey 1, 100), (IntKey 2, 200),
                        (IntKey 2, 200), (IntKey 3, 300), (IntKey 3, 300)]
      \<noteq> mset [(IntKey 1, 100 :: int), (IntKey 2, 200), (IntKey 3, 300)]"
    by metis
  have "size (mset [(IntKey 1, 100 :: int), (IntKey 2, 200), (IntKey 3, 300)])
      \<noteq> size (mset [(IntKey 1, 100 :: int), (IntKey 6, 600), (IntKey 2, 200),
                      (IntKey 3, 300)])"
    by simp
  then have loss: "mset [(IntKey 1, 100 :: int), (IntKey 2, 200), (IntKey 3, 300)]
      \<noteq> mset [(IntKey 1, 100 :: int), (IntKey 6, 600), (IntKey 2, 200), (IntKey 3, 300)]"
    by metis
  have before4: "map_option stored_entries
     (inserts 0 [(IntKey 1, 100), (IntKey 2, 200), (IntKey 3, 300)] (empty_table 4))
   = Some [(IntKey 1, 100 :: int), (IntKey 2, 200), (IntKey 3, 300)]"
    by code_simp
  have after4: "map_option stored_entries
     (Option.bind
        (inserts 0 [(IntKey 1, 100), (IntKey 2, 200), (IntKey 3, 300)] (empty_table 4))
        (\<lambda>t. grow_fuel 0 (t\<lparr>entryCount := entryCount t + 1\<rparr>)))
   = Some [(IntKey 1, 100 :: int), (IntKey 1, 100), (IntKey 2, 200), (IntKey 2, 200),
           (IntKey 3, 300), (IntKey 3, 300)]"
    by code_simp
  have before1: "map_option stored_entries
     (inserts 1 [(IntKey 1, 100), (IntKey 6, 600), (IntKey 2, 200), (IntKey 3, 300)]
        (empty_table 1))
   = Some [(IntKey 1, 100 :: int), (IntKey 6, 600), (IntKey 2, 200), (IntKey 3, 300)]"
    by code_simp
  have after1: "map_option stored_entries
     (Option.bind
        (inserts 1 [(IntKey 1, 100), (IntKey 6, 600), (IntKey 2, 200), (IntKey 3, 300)]
           (empty_table 1))
        (\<lambda>t. grow_fuel 0 (t\<lparr>entryCount := entryCount t + 1\<rparr>)))
   = Some [(IntKey 1, 100 :: int), (IntKey 2, 200), (IntKey 3, 300)]"
    by code_simp
  from before4 after4 before1 after1 dup loss show ?thesis
    by (intro conjI)
qed

text \<open>
  C3 (remove takes out exactly one entry). The claim: after \<^verbatim>\<open>remove(k)\<close> of a present
  key, \<^verbatim>\<open>get(k)\<close> is absent and every other present key keeps its value, also when
  \<^verbatim>\<open>k\<close> is the head of a chain with successors. With \<^verbatim>\<open>BaseSize = 10\<close> the keys 1, 11
  and 21 form one chain in slot 1; removing the head 1 promotes 11 and then resets the
  promoted node's successor, so 21 is lost as well.
\<close>

theorem remove_head_drops_chain_tail:
  "map_option (\<lambda>t. (get t (IntKey 1), get t (IntKey 11), get t (IntKey 21)))
     (inserts 0 [(IntKey 1, 100), (IntKey 11, 1100), (IntKey 21, 2100)] (empty_table 10))
   = Some (Some (100 :: int), Some 1100, Some 2100)
   \<and> map_option (\<lambda>t. (get (remove t (IntKey 1)) (IntKey 1),
                       get (remove t (IntKey 1)) (IntKey 11),
                       get (remove t (IntKey 1)) (IntKey 21)))
     (inserts 0 [(IntKey 1, 100), (IntKey 11, 1100), (IntKey 21, 2100)] (empty_table 10))
   = Some (None, Some (1100 :: int), None)"
  by code_simp

text \<open>
  C4 (remove of an absent key). The claim: \<^verbatim>\<open>remove\<close> of a key that is not in the table
  returns false and leaves the counter and the entries as they are. This \<^verbatim>\<open>remove\<close>
  returns nothing and decrements the counter before it searches: with the one key 1
  stored, removing the absent key 2 keeps the entry and sets the counter from 1 to 0.
\<close>

theorem remove_absent_decrements_entryCount:
  "map_option (\<lambda>t. (get t (IntKey 2), entryCount t, stored_entries t,
                     entryCount (remove t (IntKey 2)), stored_entries (remove t (IntKey 2))))
     (inserts 0 [(IntKey 1, 100)] (empty_table 10))
   = Some (None, 1, [(IntKey 1, 100 :: int)], 0, [(IntKey 1, 100)])"
  by code_simp

text \<open>
  C5 (construction from a fixed list). The claim: \<^verbatim>\<open>make_table\<close> fails if and only if
  two keys of the list have the same base index; without a collision every key of the list
  is found with its value; the overflow array is never touched. The occupancy test is the
  sentinel test of the key, so a pair with the sentinel key does not occupy its slot: with
  \<^verbatim>\<open>BaseSize = 10\<close> the keys 0 and 10 have the same base index 0, the construction
  succeeds, the second pair replaces the first, and the key 0 is not found.
\<close>

theorem make_table_sentinel_collision_accepted:
  "hash (IntKey 0) mod 10 = hash (IntKey 10) mod 10
   \<and> make_table 10 [(IntKey 0, 5 :: int), (IntKey 10, 7)]
     = Inr \<lparr>base = [HashNode (IntKey 10) 7 None, default_node, default_node, default_node,
                    default_node, default_node, default_node, default_node, default_node,
                    default_node],
            heap = [], entryCount = 0\<rparr>
   \<and> get \<lparr>base = [HashNode (IntKey 10) (7 :: int) None, default_node, default_node,
                   default_node, default_node, default_node, default_node, default_node,
                   default_node, default_node],
           heap = [], entryCount = 0\<rparr> (IntKey 0) = None"
  by code_simp

text \<open>
  C5 as amended: for a list without the sentinel key (and a base array that is not empty),
  \<^verbatim>\<open>make_table\<close> fails if and only if two pairs of the list have the same base index;
  when it succeeds, every key of the list is found with its value; and the overflow array
  is empty in the result and after every prefix of the list, so it is never touched.
\<close>

theorem make_table_collision_iff:
  assumes "0 < B" and "\<forall>e \<in> set es. \<not> isNull (fst e)"
  shows "(isl (make_table B es) \<longleftrightarrow> \<not> distinct (map (\<lambda>e. hash (fst e) mod B) es))
         \<and> (\<forall>t. make_table B es = Inr t \<longrightarrow>
               heap t = [] \<and> (\<forall>e \<in> set es. get t (fst e) = Some (snd e)))
         \<and> (\<forall>n t. make_table B (take n es) = Inr t \<longrightarrow> heap t = [])"
proof (intro conjI allI impI ballI)
  have B: "BaseSize (empty_table B :: 'a HashTable) = B"
    by (simp add: BaseSize_def empty_table_def)
  have free: "\<not> isOccupied (base (empty_table B :: 'a HashTable) ! i)" if "i < B" for i
    using that by (simp add: empty_table_def default_node_def isOccupied_def isNull_def)
  from assms(1)
  have "\<not> (\<exists>e \<in> set es.
          isOccupied (base (empty_table B :: 'a HashTable) ! (hash (fst e) mod B)))"
    by (simp add: free)
  with make_table_loop_fails_iff [of "empty_table B :: 'a HashTable" es] assms
  show "isl (make_table B es :: error + 'a HashTable)
      \<longleftrightarrow> \<not> distinct (map (\<lambda>e. hash (fst e) mod B) es)"
    by (simp add: make_table_def B)
next
  fix t :: "'a HashTable" assume "make_table B es = Inr t"
  then show "heap t = []"
    by (auto simp: make_table_def empty_table_def dest: make_table_loop_frame)
next
  fix t :: "'a HashTable" and e assume t: "make_table B es = Inr t" and e: "e \<in> set es"
  have B: "BaseSize (empty_table B :: 'a HashTable) = B"
    by (simp add: BaseSize_def empty_table_def)
  from t have loop: "make_table_loop es (empty_table B) = Inr t"
    by (simp add: make_table_def)
  from make_table_loop_frame [OF loop]
  have "heap t = heap (empty_table B :: 'a HashTable)"
    and "BaseSize t = BaseSize (empty_table B :: 'a HashTable)"
    by simp_all
  then have sz: "heap t = []" "BaseSize t = B"
    by (simp_all add: B) (simp add: empty_table_def)
  from e have "(fst e, snd e) \<in> set es" by simp
  from make_table_loop_placed [OF _ assms(2) loop this] assms(1)
  have "base t ! (hash (fst e) mod B) = HashNode (fst e) (snd e) None"
    by (simp add: B)
  moreover from assms(2) e have "\<not> isNull (fst e)" by blast
  ultimately show "get t (fst e) = Some (snd e)"
    using assms(1) by (simp add: get_def totalSize_def sz slot_def isOccupied_def)
next
  fix n and t :: "'a HashTable" assume "make_table B (take n es) = Inr t"
  then show "heap t = []"
    by (auto simp: make_table_def empty_table_def dest: make_table_loop_frame)
qed

text \<open>
  The amended C5 at the lists of the test program, \<^verbatim>\<open>BaseSize = 10\<close> and the keys
  1, 2, 3, 4: no two base indices are equal, the construction succeeds and every key is
  found.
\<close>

theorem make_table_collision_iff_witness:
  "(0 :: nat) < 10
   \<and> list_all (\<lambda>e. \<not> isNull (fst e))
       [(IntKey 1, 100 :: int), (IntKey 2, 200), (IntKey 3, 300), (IntKey 4, 400)]
   \<and> distinct (map (\<lambda>e. hash (fst e) mod 10)
       [(IntKey 1, 100 :: int), (IntKey 2, 200), (IntKey 3, 300), (IntKey 4, 400)])
   \<and> (\<exists>t. make_table 10
             [(IntKey 1, 100 :: int), (IntKey 2, 200), (IntKey 3, 300), (IntKey 4, 400)]
           = Inr t
         \<and> heap t = []
         \<and> get t (IntKey 1) = Some 100 \<and> get t (IntKey 2) = Some 200
         \<and> get t (IntKey 3) = Some 300 \<and> get t (IntKey 4) = Some 400)"
proof -
  let ?es = "[(IntKey 1, 100 :: int), (IntKey 2, 200), (IntKey 3, 300), (IntKey 4, 400)]"
  have pos: "(0 :: nat) < 10" by simp
  have keys: "\<forall>e \<in> set ?es. \<not> isNull (fst e)" by (simp add: isNull_def)
  have idx: "distinct (map (\<lambda>e. hash (fst e) mod 10) ?es)" by code_simp
  note c = make_table_collision_iff [OF pos keys]
  from c idx have "\<not> isl (make_table 10 ?es :: error + int HashTable)" by blast
  then obtain t :: "int HashTable" where t: "make_table 10 ?es = Inr t"
    by (cases "make_table 10 ?es :: error + int HashTable") auto
  with c have "heap t = []" and "\<forall>e \<in> set ?es. get t (fst e) = Some (snd e)"
    by blast+
  with t pos idx show ?thesis by (simp add: isNull_def)
qed

text \<open>
  C6 (copying is a deep copy of everything). The claim: the copy holds the same pairs as
  the original, overflow entries included. The copy constructor tests the length of the
  new table's own overflow array, which is 0, and never copies the other one: with
  \<^verbatim>\<open>BaseSize = 1\<close> and the key 1 stored (in the overflow array, after the growth of its
  insertion), the copy holds nothing and does not find the key.
\<close>

theorem copy_table_drops_heap:
  "map_option (\<lambda>t. (get t (IntKey 1), stored_entries t,
                     get (copy_table t) (IntKey 1), stored_entries (copy_table t),
                     length (heap t), length (heap (copy_table t))))
     (inserts 1 [(IntKey 1, 100)] (empty_table 1))
   = Some (Some (100 :: int), [(IntKey 1, 100)], None, [], 4, 0)"
  by code_simp

text \<open>
  C7 (no growth inside a growth). The claim: while a growth is running, growth is never
  started again; its re-insertion only places the pairs and skips the load-factor test.
  \<^verbatim>\<open>grow\<close> re-inserts through \<^verbatim>\<open>insert\<close> itself, counter and load-factor test
  included, and the base array it never clears makes that test fire. In the run of the
  test program the table built by \<^verbatim>\<open>make_table\<close> from the keys 1 to 4 is copied and the
  keys 5 to 11 are inserted without a growth (\<^verbatim>\<open>make_table\<close> does not count, so the
  counter is 7 with 11 pairs stored). The insertion of 12 counts 8, is over the load factor
  and calls \<^verbatim>\<open>grow\<close> for the first time; that growth collects 11 pairs for a new total
  size of 14, so its eleventh re-insertion is over the load factor again: the growth cannot
  finish without a growth inside it, and the insertion of 12 does not return unless a
  nested growth is allowed.
\<close>

theorem growth_nested_in_test_program:
  "map_sum id
     (\<lambda>g. map_option
        (\<lambda>t. (entryCount t,
              over_load (t\<lparr>entryCount := entryCount t + 1\<rparr>),
              length (allEntries (t\<lparr>entryCount := entryCount t + 1\<rparr>)),
              BaseSize t + newheapLen t,
              Option.is_none (grow_fuel 0 (t\<lparr>entryCount := entryCount t + 1\<rparr>)),
              Option.is_none (insert_fuel 1 t (IntKey 12) 1200)))
        (inserts 0 [(IntKey 5, 500), (IntKey 6, 600), (IntKey 7, 700), (IntKey 8, 800),
                    (IntKey 9, 900), (IntKey 10, 1000), (IntKey 11, 1100)]
           (copy_table g)))
     (make_table 10 [(IntKey 1, 100 :: int), (IntKey 2, 200), (IntKey 3, 300),
                     (IntKey 4, 400)])
   = Inr (Some (7, True, 11, 14, True, True))"
  by code_simp

text \<open>
  C8 (growth resets the base slots). The claim: the capacity of the base array is unchanged
  by a growth, and every base slot is empty before the collected pairs are inserted again.
  The length is unchanged, but \<^verbatim>\<open>grow\<close> never assigns to the base array and moving an
  \<^verbatim>\<open>IntKey\<close> out of a node leaves the key in it: with \<^verbatim>\<open>BaseSize = 4\<close> and the keys
  1, 2, 3 stored, the base array at the start of the re-insertion is the one before the
  growth, and at the end every old node has its own pair chained behind it.
\<close>

theorem growth_leaves_base_occupied:
  "map_option (\<lambda>t. base (grow_reset (t\<lparr>entryCount := entryCount t + 1\<rparr>)))
     (inserts 0 [(IntKey 1, 100), (IntKey 2, 200), (IntKey 3, 300)] (empty_table 4))
   = Some [default_node, HashNode (IntKey 1) (100 :: int) None,
           HashNode (IntKey 2) 200 None, HashNode (IntKey 3) 300 None]
   \<and> map_option base
     (Option.bind
        (inserts 0 [(IntKey 1, 100), (IntKey 2, 200), (IntKey 3, 300)] (empty_table 4))
        (\<lambda>t. grow_fuel 0 (t\<lparr>entryCount := entryCount t + 1\<rparr>)))
   = Some [default_node,
           HashNode (IntKey 1) (100 :: int) (Some (HashNode (IntKey 1) 100 None)),
           HashNode (IntKey 2) 200 (Some (HashNode (IntKey 2) 200 None)),
           HashNode (IntKey 3) 300 (Some (HashNode (IntKey 3) 300 None))]"
  by code_simp

text \<open>
  C9 (a second insertion of a key is shadowed). The claim: after inserting a key that is
  already present, \<^verbatim>\<open>get\<close> still gives the value inserted first. With
  \<^verbatim>\<open>BaseSize = 1\<close> the key 6 is stored with 600, chained behind key 1 in the overflow
  array; inserting 6 again with 999 starts a growth, the growth drops the chained node,
  and \<^verbatim>\<open>get\<close> gives the new value 999.
\<close>

theorem insert_duplicate_after_growth_unshadowed:
  "map_option (\<lambda>t. get t (IntKey 6))
     (inserts 1 [(IntKey 1, 100), (IntKey 6, 600), (IntKey 2, 200), (IntKey 3, 300)]
        (empty_table 1))
   = Some (Some (600 :: int))
   \<and> map_option (\<lambda>t. get t (IntKey 6))
     (inserts 1 [(IntKey 1, 100), (IntKey 6, 600), (IntKey 2, 200), (IntKey 3, 300),
                 (IntKey 6, 999)]
        (empty_table 1))
   = Some (Some (999 :: int))"
  by code_simp

text \<open>
  C10 (inserting the sentinel key). The claim: \<^verbatim>\<open>insert\<close> of a key for which
  \<^verbatim>\<open>isNull\<close> holds increments the counter and stores a node, and \<^verbatim>\<open>get\<close> of that key
  is absent in every resulting table. The node is stored and the key is not found, but
  the counter is not incremented when the insertion grows: with \<^verbatim>\<open>BaseSize = 4\<close> and
  the keys 1, 2, 3 stored the counter is 3; the insertion of the sentinel key 0 counts 4
  and starts a growth, the growth sets the counter to zero and counts only the three pairs
  it inserts again, and the counter is 3 afterwards, with the new pair in slot 0.
\<close>

theorem insert_sentinel_count_unchanged:
  "isNull (IntKey 0)
   \<and> map_option entryCount
       (inserts 1 [(IntKey 1, 100 :: int), (IntKey 2, 200), (IntKey 3, 300)] (empty_table 4))
     = Some 3
   \<and> map_option (\<lambda>t. (entryCount t, base t ! 0, get t (IntKey 0)))
       (inserts 1 [(IntKey 1, 100 :: int), (IntKey 2, 200), (IntKey 3, 300), (IntKey 0, 7)]
          (empty_table 4))
     = Some (3, HashNode (IntKey 0) 7 None, None)"
  by code_simp

text \<open>
  The increment is lost for every key, not only for the sentinel: the first insertion
  into a table with \<^verbatim>\<open>BaseSize = 1\<close> grows and leaves the counter at 0 with one pair
  stored. An insertion that does not grow counts.
\<close>

lemma insert_that_grows_loses_its_count:
  "map_option (\<lambda>t. (entryCount t, stored_entries t))
     (inserts 1 [(IntKey 1, 100 :: int)] (empty_table 1))
   = Some (0, [(IntKey 1, 100)])"
  by code_simp

lemma insert_no_growth_counts:
  "\<not> over_load (t\<lparr>entryCount := entryCount t + 1\<rparr>) \<Longrightarrow>
     \<exists>t'. insert_fuel n t k v = Some t' \<and> entryCount t' = entryCount t + 1"
  by (simp add: insert_fuel.simps)

text \<open>
  The rest of the claim on every table: a returned insertion has put a node with the pair
  into the chain of the key's slot, and no table finds a key for which \<^verbatim>\<open>isNull\<close> holds.
\<close>

lemma insert_stores_node:
  assumes "insert_fuel n t k v = Some t'"
  shows "(k, v) \<in> set (chain_nodes (Some (slot t' (hash k mod totalSize t'))))"
proof -
  from insert_fuel_placed [OF assms] obtain t2 where "t' = place t2 k v" "0 < totalSize t2"
    by blast
  then show ?thesis
    using place_stores [of t2 k v] by simp
qed

end
